theory Spec2Isabelle
  imports Main "HOL-Library.Word"
begin

section \<open>Data model of the persistent queue (queue/persistence.go)\<close>

type_synonym uint64 = "64 word"
type_synonym bytes = "8 word list"

text \<open>Errors are values. \<open>ErrQueueClosed\<close> and \<open>ErrDataNotFound\<close> are the two
  sentinel errors the queue names; every other error comes from the bucket or from the
  protobuf codec and is opaque to the queue. A Go panic ends the process; it is the
  value \<open>Panic\<close>.\<close>

datatype error = ErrQueueClosed | ErrDataNotFound | ErrOther string | Panic string

text \<open>\<open>mqtt.Context\<close> and \<open>mqtt.Message\<close>, with the fields the queue reads and writes.\<close>

record mqtt_context =
  ID :: uint64
  TS :: uint64
  QOS :: "32 word"
  Flags :: "32 word"
  Topic :: string

record mqtt_message =
  Context :: mqtt_context
  Content :: bytes

text \<open>Modelled from the spec: \<open>common.Event\<close> (package common is not part of the
  sources at hand). An event is a message with a one-shot capability, built by
  \<open>common.NewEvent(msg, count, call)\<close>. The capability of an event pushed by a producer
  is the producer's \<open>done\<close> (identified here by a number); the capability of an event
  built by the queue is the queue's own \<open>acknowledge\<close>.\<close>

datatype callback = producer_done nat | acknowledge

record event =
  Message :: mqtt_message
  Count :: int
  Call :: callback

definition NewEvent :: "mqtt_message \<Rightarrow> int \<Rightarrow> callback \<Rightarrow> event" where
  "NewEvent m n c = \<lparr>Message = m, Count = n, Call = c\<rparr>"

definition event_id :: "event \<Rightarrow> uint64" where
  "event_id e = ID (Context (Message e))"

definition event_ts :: "event \<Rightarrow> uint64" where
  "event_ts e = TS (Context (Message e))"

text \<open>\<open>Config\<close>: durations are nanoseconds, as \<open>time.Duration\<close>.\<close>

record Config =
  Name :: string
  BatchSize :: int
  MaxBatchCacheSize :: int
  ExpireTime :: int
  CleanInterval :: int
  WriteTimeout :: int
  DeleteTimeout :: int

record batchMsgs =
  offset :: uint64
  data :: "event list"

text \<open>What the queue is given: the bucket behind the interface \<open>store.BatchBucket\<close>
  and the protobuf codec. The bucket's state is of an arbitrary type \<open>'b\<close>; a method that
  mutates the store returns the error (if any) and the store it leaves, so that a failing
  call may still have changed it. \<open>Get\<close> yields the records it hands to its callback, in
  the order of the calls, as pairs (data, offset).\<close>

record 'b env =
  Put :: "'b \<Rightarrow> uint64 \<Rightarrow> bytes list \<Rightarrow> error option \<times> 'b"
  Get :: "'b \<Rightarrow> uint64 \<Rightarrow> uint64 \<Rightarrow> error + (bytes \<times> uint64) list"
  MaxOffset :: "'b \<Rightarrow> error + uint64"
  MinOffset :: "'b \<Rightarrow> error + uint64"
  DelBeforeID :: "'b \<Rightarrow> uint64 \<Rightarrow> error option \<times> 'b"
  DelBeforeTS :: "'b \<Rightarrow> uint64 \<Rightarrow> error option \<times> 'b"
  Close :: "'b \<Rightarrow> bool \<Rightarrow> error option \<times> 'b"
  Marshal :: "mqtt_message \<Rightarrow> error + bytes"
  Unmarshal :: "bytes \<Rightarrow> error + mqtt_message"

text \<open>\<open>Persistence\<close>. The channels are the lists of the values they hold, oldest first;
  \<open>input_chan\<close> and \<open>output_chan\<close> are the Go fields \<open>input\<close> and \<open>output\<close>;
  \<open>eget\<close> has capacity 1 and is a flag; \<open>dying\<close> is the tomb's signal. Two fields are
  not fields of the Go struct: \<open>fired\<close> lists the events whose \<open>Done()\<close> the queue has
  called, and \<open>emitted\<close> lists every event the reader has sent on \<open>output_chan\<close>. Logging
  changes nothing of the queue and is left out.\<close>

record 'b Persistence =
  cfg :: Config
  offset :: uint64
  cache :: "batchMsgs list"
  bucket :: 'b
  disable :: bool
  input_chan :: "event list"
  output_chan :: "event list"
  edel :: "uint64 list"
  eget :: bool
  dying :: bool
  fired :: "event list"
  emitted :: "event list"

section \<open>The operations\<close>

text \<open>\<open>trigger\<close>: a non-blocking send on \<open>eget\<close>; a pending pump absorbs it.\<close>

definition trigger :: "'b Persistence \<Rightarrow> 'b Persistence" where
  "trigger q = q\<lparr>eget := True\<rparr>"

text \<open>The event \<open>add\<close> builds from a pushed one: the same context and content under the
  new ID, with the queue's \<open>acknowledge\<close> as its capability.\<close>

definition restamp :: "uint64 \<Rightarrow> event \<Rightarrow> event" where
  "restamp i e =
     NewEvent
       \<lparr>Context = \<lparr>ID = i, TS = TS (Context (Message e)), QOS = QOS (Context (Message e)),
                    Flags = Flags (Context (Message e)), Topic = Topic (Context (Message e))\<rparr>,
        Content = Content (Message e)\<rparr> 1 acknowledge"

text \<open>The first loop of \<open>add\<close>: \<open>begin\<close> counts up from the queue's offset, each event
  is rebuilt with its new ID and marshalled; the first marshalling error ends the flush.\<close>

fun add_loop ::
  "'b env \<Rightarrow> uint64 \<Rightarrow> event list \<Rightarrow> bytes list \<Rightarrow> event list \<Rightarrow> error + (bytes list \<times> event list)"
where
  "add_loop E begin [] ds msgs = Inr (ds, msgs)"
| "add_loop E begin (e # es) ds msgs =
     (let begin' = begin + 1;
          ee = restamp begin' e
      in case Marshal E (Message ee) of
           Inl err \<Rightarrow> Inl err
         | Inr d \<Rightarrow> add_loop E begin' es (ds @ [d]) (msgs @ [ee]))"

definition add :: "'b env \<Rightarrow> 'b Persistence \<Rightarrow> event list \<Rightarrow> 'b Persistence \<times> event list" where
  "add E q buf =
     (if length buf = 0 then (q, buf)
      else case add_loop E (offset q) buf [] [] of
        Inl err \<Rightarrow> (q, [])
      | Inr (ds, msgs) \<Rightarrow>
          (let begin = offset q + 1;
               (err, b') = Put E (bucket q) begin ds;
               q0 = q\<lparr>bucket := b'\<rparr>
           in case err of
                None \<Rightarrow>
                  (let q1 = q0\<lparr>fired := fired q0 @ buf\<rparr> in
                   if disable q1 then (q1, [])
                   else
                     (let q2 = (if int (length (cache q1)) < MaxBatchCacheSize (cfg q1)
                                then q1\<lparr>cache := cache q1 @
                                        [\<lparr>batchMsgs.offset = begin, batchMsgs.data = msgs\<rparr>]\<rparr>
                                else q1);
                          q3 = q2\<lparr>offset := offset q2 + of_nat (length buf)\<rparr>
                      in (trigger q3, [])))
              | Some e \<Rightarrow> (q0, [])))"

text \<open>\<open>delete\<close>: the acknowledgement collector's flush.\<close>

definition delete :: "'b env \<Rightarrow> 'b Persistence \<Rightarrow> uint64 list \<Rightarrow> 'b Persistence \<times> uint64 list" where
  "delete E q buf =
     (if length buf = 0 then (q, buf)
      else (let id = buf ! (length buf - 1);
                (err, b') = DelBeforeID E (bucket q) id
            in (q\<lparr>bucket := b'\<rparr>, [])))"

text \<open>\<open>get\<close>: the callback handed to the bucket's \<open>Get\<close>, run over the records the
  bucket visits. It refuses empty data, unmarshals, and overwrites the decoded ID with the
  offset the bucket reports; the first error ends the read.\<close>

fun get_callback ::
  "'b env \<Rightarrow> (bytes \<times> uint64) list \<Rightarrow> mqtt_message list \<Rightarrow> error + mqtt_message list"
where
  "get_callback E [] msgs = Inr msgs"
| "get_callback E ((d, off) # rest) msgs =
     (if length d = 0 then Inl ErrDataNotFound
      else case Unmarshal E d of
             Inl err \<Rightarrow> Inl err
           | Inr v \<Rightarrow> get_callback E rest (msgs @ [v\<lparr>Context := (Context v)\<lparr>ID := off\<rparr>\<rparr>]))"

definition get :: "'b env \<Rightarrow> 'b \<Rightarrow> uint64 \<Rightarrow> uint64 \<Rightarrow> error + event list" where
  "get E b begin end =
     (case Get E b begin end of
        Inl err \<Rightarrow> Inl err
      | Inr kvs \<Rightarrow>
          (case get_callback E kvs [] of
             Inl err \<Rightarrow> Inl err
           | Inr msgs \<Rightarrow> Inr (map (\<lambda>m. NewEvent m 1 acknowledge) msgs)))"

text \<open>\<open>clean\<close>. Every \<open>time.Now()\<close> is a reading of a clock: \<open>clock i\<close> is the reading of
  the loop's round \<open>i\<close> and \<open>clock (length (cache q))\<close> the reading of the final call, in
  nanoseconds since the epoch. The loop looks for the first batch whose last event is
  recent enough; \<open>index\<close> stays 0 when there is none. Reading the last event of a batch
  without events panics.\<close>

definition expire_threshold :: "Config \<Rightarrow> int \<Rightarrow> uint64" where
  "expire_threshold c now = word_of_int ((now - ExpireTime c) div 1000000000)"

fun clean_loop :: "Config \<Rightarrow> (nat \<Rightarrow> int) \<Rightarrow> nat \<Rightarrow> batchMsgs list \<Rightarrow> error + nat" where
  "clean_loop c clock i [] = Inr 0"
| "clean_loop c clock i (v # vs) =
     (if length (batchMsgs.data v) = 0 then Inl (Panic ''index out of range'')
      else if event_ts (batchMsgs.data v ! (length (batchMsgs.data v) - 1))
                \<ge> expire_threshold c (clock i)
      then Inr i
      else clean_loop c clock (Suc i) vs)"

definition clean :: "'b env \<Rightarrow> (nat \<Rightarrow> int) \<Rightarrow> 'b Persistence \<Rightarrow> error + 'b Persistence" where
  "clean E clock q =
     (case clean_loop (cfg q) clock 0 (cache q) of
        Inl p \<Rightarrow> Inl p
      | Inr index \<Rightarrow>
          (let q1 = q\<lparr>cache := drop index (cache q)\<rparr>;
               (err, b') = DelBeforeTS E (bucket q1)
                             (expire_threshold (cfg q1) (clock (length (cache q))))
           in Inr (q1\<lparr>bucket := b'\<rparr>)))"

text \<open>A \<open>select\<close> between a channel operation and \<open>q.Dying()\<close> takes any case that can
  proceed. The case taken is an argument; an operation whose chosen case cannot proceed
  has no result (\<open>None\<close>: the caller stays blocked on that case). A channel of capacity
  0 hands its value over directly; it is modelled as holding that one value.\<close>

datatype select_case = case_chan | case_dying

definition chan_cap :: "Config \<Rightarrow> nat" where
  "chan_cap c = max 1 (nat (BatchSize c))"

definition Push ::
  "'b Persistence \<Rightarrow> event \<Rightarrow> select_case \<Rightarrow> ('b Persistence \<times> error option) option" where
  "Push q e c =
     (case c of
        case_chan \<Rightarrow>
          if length (input_chan q) < chan_cap (cfg q)
          then Some (q\<lparr>input_chan := input_chan q @ [e]\<rparr>, None) else None
      | case_dying \<Rightarrow> if dying q then Some (q, Some ErrQueueClosed) else None)"

definition Pop ::
  "'b Persistence \<Rightarrow> select_case \<Rightarrow> ('b Persistence \<times> (error + event)) option" where
  "Pop q c =
     (case c of
        case_chan \<Rightarrow>
          (case output_chan q of
             [] \<Rightarrow> None
           | e # es \<Rightarrow> Some (q\<lparr>output_chan := es\<rparr>, Inr e))
      | case_dying \<Rightarrow> if dying q then Some (q, Inl ErrQueueClosed) else None)"

definition acknowledge_call ::
  "'b Persistence \<Rightarrow> uint64 \<Rightarrow> select_case \<Rightarrow> 'b Persistence option" where
  "acknowledge_call q i c =
     (case c of
        case_chan \<Rightarrow>
          if length (edel q) < chan_cap (cfg q) then Some (q\<lparr>edel := edel q @ [i]\<rparr>) else None
      | case_dying \<Rightarrow> if dying q then Some q else None)"

definition Disable :: "'b Persistence \<Rightarrow> 'b Persistence" where
  "Disable q = q\<lparr>disable := True\<rparr>"

definition Kill :: "'b Persistence \<Rightarrow> 'b Persistence" where
  "Kill q = q\<lparr>dying := True\<rparr>"

text \<open>\<open>NewPersistence\<close>: the offset starts at the bucket's largest offset, the cache is
  empty and one pump is posted. \<open>make\<close> panics on a negative capacity.\<close>

definition NewPersistence :: "'b env \<Rightarrow> Config \<Rightarrow> 'b \<Rightarrow> error + 'b Persistence" where
  "NewPersistence E c b =
     (case MaxOffset E b of
        Inl err \<Rightarrow> Inl err
      | Inr off \<Rightarrow>
          if BatchSize c < 0 then Inl (Panic ''makechan: size out of range'')
          else Inr (trigger \<lparr>cfg = c, offset = off, cache = [], bucket = b, disable = False,
                             input_chan = [], output_chan = [], edel = [], eget = False,
                             dying = False, fired = [], emitted = []\<rparr>))"

section \<open>The three workers\<close>

text \<open>The critical section of a pump (\<open>reading\<close>, between \<open>Lock\<close> and \<open>Unlock\<close>): the
  upper bound \<open>end\<close> of the round and, on a cache hit, the head batch's events.\<close>

definition reading_locked ::
  "'b Persistence \<Rightarrow> uint64 \<Rightarrow> 'b Persistence \<times> uint64 \<times> event list" where
  "reading_locked q begin =
     (let interval = BatchSize (cfg q);
          (q1, end0, buf) =
            (if length (cache q) > 0 then
               (let e = batchMsgs.offset (cache q ! 0) in
                if begin = e then (q\<lparr>cache := drop 1 (cache q)\<rparr>, e, batchMsgs.data (cache q ! 0))
                else (q, e, []))
             else (q, 0, []));
          end1 = (if end0 = 0 then offset q1 + 1 else end0);
          t = begin + word_of_int interval;
          end2 = (if t < end1 then t else end1)
      in (q1, end2, buf))"

text \<open>Sending a slice on \<open>output\<close>. Each send is a \<open>select\<close> against \<open>q.Dying()\<close>:
  \<open>stop = Some k\<close> says that the dying case is taken at the send number \<open>k\<close> (counted
  from 0), which it can be only on a dying queue; the reader then returns. That a send
  waits for room on the channel is not modelled: the consumer drains it meanwhile.\<close>

definition send_all :: "'b Persistence \<Rightarrow> event list \<Rightarrow> 'b Persistence" where
  "send_all q es = q\<lparr>output_chan := output_chan q @ es, emitted := emitted q @ es\<rparr>"

datatype reader = Starting | Reading uint64 | ReaderExited

text \<open>The body of \<open>case <-q.eget\<close> in \<open>reading\<close>: one pump.\<close>

definition reading_pump ::
  "'b env \<Rightarrow> nat option \<Rightarrow> 'b Persistence \<Rightarrow> uint64 \<Rightarrow> 'b Persistence \<times> reader" where
  "reading_pump E stop q begin =
     (let (q1, end, buf0) = reading_locked q begin in
      case (if length buf0 = 0 \<and> begin \<noteq> end then get E (bucket q1) begin end else Inr buf0) of
        Inl err \<Rightarrow> (q1, Reading begin)
      | Inr buf \<Rightarrow>
          if length buf = 0 then (q1, Reading begin)
          else (case stop of
                  Some k \<Rightarrow>
                    if dying q1 \<and> k < length buf then (send_all q1 (take k buf), ReaderExited)
                    else (trigger (send_all q1 buf),
                          Reading (event_id (buf ! (length buf - 1)) + 1))
                | None \<Rightarrow>
                    (trigger (send_all q1 buf),
                     Reading (event_id (buf ! (length buf - 1)) + 1))))"

text \<open>One round of the \<open>select\<close> of \<open>reading\<close>.\<close>

definition reading_round ::
  "'b env \<Rightarrow> select_case \<Rightarrow> nat option \<Rightarrow> 'b Persistence \<Rightarrow> uint64
     \<Rightarrow> ('b Persistence \<times> reader) option" where
  "reading_round E c stop q begin =
     (case c of
        case_chan \<Rightarrow> if eget q then Some (reading_pump E stop (q\<lparr>eget := False\<rparr>) begin) else None
      | case_dying \<Rightarrow> if dying q then Some (q, ReaderExited) else None)"

text \<open>The start of \<open>reading\<close>: the cursor is the bucket's smallest offset, or 1. A worker
  that returns an error kills the tomb.\<close>

definition reading_start :: "'b env \<Rightarrow> 'b Persistence \<Rightarrow> 'b Persistence \<times> reader" where
  "reading_start E q =
     (case MinOffset E (bucket q) of
        Inl err \<Rightarrow> (Kill q, ReaderExited)
      | Inr begin \<Rightarrow> (q, Reading (if begin = 0 then 1 else begin)))"

text \<open>One round of the \<open>select\<close> of \<open>writing\<close>, on the worker's buffer. The result's
  second component is the buffer, or \<open>None\<close> once the worker has returned.\<close>

datatype writing_case = w_input | w_timer | w_dying

definition writing_round ::
  "'b env \<Rightarrow> writing_case \<Rightarrow> 'b Persistence \<Rightarrow> event list
     \<Rightarrow> ('b Persistence \<times> event list option) option" where
  "writing_round E c q buf =
     (case c of
        w_input \<Rightarrow>
          (case input_chan q of
             [] \<Rightarrow> None
           | e # es \<Rightarrow>
               (let q1 = q\<lparr>input_chan := es\<rparr>; buf1 = buf @ [e] in
                if int (length buf1) = BatchSize (cfg q1)
                then (let (q2, buf2) = add E q1 buf1 in Some (q2, Some buf2))
                else Some (q1, Some buf1)))
      | w_timer \<Rightarrow> (let (q2, buf2) = add E q buf in Some (q2, Some buf2))
      | w_dying \<Rightarrow>
          if dying q then (let (q2, buf2) = add E q buf in Some (q2, None)) else None)"

text \<open>One round of the \<open>select\<close> of \<open>deleting\<close>; a panic of \<open>clean\<close> is the result
  \<open>Inl\<close>.\<close>

datatype deleting_case = d_edel | d_timer | d_clean "nat \<Rightarrow> int" | d_dying

definition deleting_round ::
  "'b env \<Rightarrow> deleting_case \<Rightarrow> 'b Persistence \<Rightarrow> uint64 list
     \<Rightarrow> (error + 'b Persistence \<times> uint64 list option) option" where
  "deleting_round E c q buf =
     (case c of
        d_edel \<Rightarrow>
          (case edel q of
             [] \<Rightarrow> None
           | e # es \<Rightarrow>
               (let q1 = q\<lparr>edel := es\<rparr>; buf1 = buf @ [e] in
                if int (length buf1) = BatchSize (cfg q1)
                then (let (q2, buf2) = delete E q1 buf1 in Some (Inr (q2, Some buf2)))
                else Some (Inr (q1, Some buf1))))
      | d_timer \<Rightarrow> (let (q2, buf2) = delete E q buf in Some (Inr (q2, Some buf2)))
      | d_clean clock \<Rightarrow>
          (case clean E clock q of
             Inl p \<Rightarrow> Some (Inl p)
           | Inr q2 \<Rightarrow> Some (Inr (q2, Some buf)))
      | d_dying \<Rightarrow>
          if dying q then (let (q2, buf2) = delete E q buf in Some (Inr (q2, None))) else None)"

section \<open>The queue as a transition system\<close>

text \<open>The queue with its three workers, each with its local variables (\<open>None\<close>: the
  worker has returned). An action is a call of the interface by a producer, the consumer
  or the owner, or one round of a worker; an action that cannot proceed leaves the state
  as it is. A panic ends everything. A round of a worker is one action, although the Go
  code holds the queue's lock for a part of the round only: \<open>add\<close> tests \<open>disable\<close> and
  updates cache and offset under the lock after \<open>Put\<close> has returned, and a pump reads
  the bucket after it has released the lock. Of \<open>Close\<close> the action \<open>AKill\<close> is the
  kill of the tomb; closing the bucket after the workers have returned is not an action.\<close>

record 'b sys =
  Q :: "'b Persistence"
  writer :: "event list option"
  reader :: reader
  deleter :: "uint64 list option"
  panicked :: bool

datatype action =
    APush event select_case
  | APop select_case
  | AAck uint64 select_case
  | ADisable
  | AKill
  | AWrite writing_case
  | AReadStart
  | ARead select_case "nat option"
  | ADelete deleting_case

definition step :: "'b env \<Rightarrow> action \<Rightarrow> 'b sys \<Rightarrow> 'b sys" where
  "step E a s =
     (if panicked s then s
      else case a of
        APush e c \<Rightarrow> (case Push (Q s) e c of None \<Rightarrow> s | Some (q, r) \<Rightarrow> s\<lparr>Q := q\<rparr>)
      | APop c \<Rightarrow> (case Pop (Q s) c of None \<Rightarrow> s | Some (q, r) \<Rightarrow> s\<lparr>Q := q\<rparr>)
      | AAck i c \<Rightarrow> (case acknowledge_call (Q s) i c of None \<Rightarrow> s | Some q \<Rightarrow> s\<lparr>Q := q\<rparr>)
      | ADisable \<Rightarrow> s\<lparr>Q := Disable (Q s)\<rparr>
      | AKill \<Rightarrow> s\<lparr>Q := Kill (Q s)\<rparr>
      | AWrite c \<Rightarrow>
          (case writer s of
             None \<Rightarrow> s
           | Some buf \<Rightarrow>
               (case writing_round E c (Q s) buf of
                  None \<Rightarrow> s
                | Some (q, w) \<Rightarrow> s\<lparr>Q := q, writer := w\<rparr>))
      | AReadStart \<Rightarrow>
          (case reader s of
             Starting \<Rightarrow> (let (q, r) = reading_start E (Q s) in s\<lparr>Q := q, reader := r\<rparr>)
           | Reading begin \<Rightarrow> s
           | ReaderExited \<Rightarrow> s)
      | ARead c stop \<Rightarrow>
          (case reader s of
             Starting \<Rightarrow> s
           | Reading begin \<Rightarrow>
               (case reading_round E c stop (Q s) begin of
                  None \<Rightarrow> s
                | Some (q, r) \<Rightarrow> s\<lparr>Q := q, reader := r\<rparr>)
           | ReaderExited \<Rightarrow> s)
      | ADelete c \<Rightarrow>
          (case deleter s of
             None \<Rightarrow> s
           | Some buf \<Rightarrow>
               (case deleting_round E c (Q s) buf of
                  None \<Rightarrow> s
                | Some (Inl p) \<Rightarrow> s\<lparr>panicked := True\<rparr>
                | Some (Inr (q, d)) \<Rightarrow> s\<lparr>Q := q, deleter := d\<rparr>)))"

fun exec :: "'b env \<Rightarrow> action list \<Rightarrow> 'b sys \<Rightarrow> 'b sys" where
  "exec E [] s = s"
| "exec E (a # as) s = exec E as (step E a s)"

text \<open>The state \<open>NewPersistence\<close> leaves: the three workers are started with empty
  buffers, the reader has not read its first cursor yet.\<close>

definition start :: "'b env \<Rightarrow> Config \<Rightarrow> 'b \<Rightarrow> error + 'b sys" where
  "start E c b =
     (case NewPersistence E c b of
        Inl err \<Rightarrow> Inl err
      | Inr q \<Rightarrow> Inr \<lparr>Q = q, writer = Some [], reader = Starting, deleter = Some [],
                      panicked = False\<rparr>)"

section \<open>A bucket and a codec to run the queue on\<close>

text \<open>Modelled from the spec: the key-value bucket of section 4.5 (the package store that
  implements \<open>store.BatchBucket\<close> is not part of the sources at hand). The bucket maps
  offsets to bytes, here as an association list. \<open>put\<close> stores the records under
  \<open>begin, begin+1, ...\<close> and fails, leaving the bucket as it is, if one of these offsets
  exists; \<open>get\<close> visits the offsets in \<open>[begin, end)\<close> in ascending order, skips the
  missing ones and fails on a value without bytes; \<open>min_offset\<close> and \<open>max_offset\<close> are 0 on an empty bucket;
  \<open>delete_before(id)\<close> removes the offsets \<open>< id\<close>; this backend has no time index and
  its \<open>delete_before_timestamp\<close> does nothing.\<close>

type_synonym kv_bucket = "(uint64 \<times> bytes) list"

definition kv_keys :: "kv_bucket \<Rightarrow> uint64 list" where
  "kv_keys b = sort (remdups (map fst b))"

definition kv_put :: "kv_bucket \<Rightarrow> uint64 \<Rightarrow> bytes list \<Rightarrow> error option \<times> kv_bucket" where
  "kv_put b begin ds =
     (let ks = map (\<lambda>i. begin + of_nat i) [0..<length ds] in
      if list_ex (\<lambda>k. k \<in> set (map fst b)) ks then (Some (ErrOther ''offset exists''), b)
      else (None, b @ zip ks ds))"

definition kv_range :: "kv_bucket \<Rightarrow> uint64 \<Rightarrow> uint64 \<Rightarrow> (bytes \<times> uint64) list" where
  "kv_range b begin end =
     map (\<lambda>k. (the (map_of b k), k)) (filter (\<lambda>k. begin \<le> k \<and> k < end) (kv_keys b))"

definition kv_get :: "kv_bucket \<Rightarrow> uint64 \<Rightarrow> uint64 \<Rightarrow> error + (bytes \<times> uint64) list" where
  "kv_get b begin end =
     (if list_ex (\<lambda>r. fst r = []) (kv_range b begin end) then Inl ErrDataNotFound
      else Inr (kv_range b begin end))"

definition kv_min_offset :: "kv_bucket \<Rightarrow> error + uint64" where
  "kv_min_offset b = Inr (case kv_keys b of [] \<Rightarrow> 0 | k # ks \<Rightarrow> k)"

definition kv_max_offset :: "kv_bucket \<Rightarrow> error + uint64" where
  "kv_max_offset b = Inr (case rev (kv_keys b) of [] \<Rightarrow> 0 | k # ks \<Rightarrow> k)"

definition kv_delete_before :: "kv_bucket \<Rightarrow> uint64 \<Rightarrow> error option \<times> kv_bucket" where
  "kv_delete_before b i = (None, filter (\<lambda>(k, d). \<not> k < i) b)"

definition kv_delete_before_timestamp :: "kv_bucket \<Rightarrow> uint64 \<Rightarrow> error option \<times> kv_bucket" where
  "kv_delete_before_timestamp b ts = (None, b)"

definition kv_close :: "kv_bucket \<Rightarrow> bool \<Rightarrow> error option \<times> kv_bucket" where
  "kv_close b wipe = (None, if wipe then [] else b)"

text \<open>A small codec in place of protobuf, enough to run the queue on examples: one byte
  for each of ID, timestamp and QoS, then the content; topic and flags are not kept. It
  refuses a QoS above 2 and cannot decode fewer than three bytes.\<close>

definition toy_marshal :: "mqtt_message \<Rightarrow> error + bytes" where
  "toy_marshal m =
     (if QOS (Context m) > 2 then Inl (ErrOther ''invalid qos'')
      else Inr (ucast (ID (Context m)) # ucast (TS (Context m)) # ucast (QOS (Context m))
                # Content m))"

fun toy_unmarshal :: "bytes \<Rightarrow> error + mqtt_message" where
  "toy_unmarshal (i # t # qs # c) =
     Inr \<lparr>Context = \<lparr>ID = ucast i, TS = ucast t, QOS = ucast qs, Flags = 0, Topic = []\<rparr>,
          Content = c\<rparr>"
| "toy_unmarshal d = Inl (ErrOther ''unexpected end of data'')"

definition kv_env :: "kv_bucket env" where
  "kv_env =
     \<lparr>Put = kv_put, Get = kv_get, MaxOffset = kv_max_offset, MinOffset = kv_min_offset,
      DelBeforeID = kv_delete_before, DelBeforeTS = kv_delete_before_timestamp,
      Close = kv_close, Marshal = toy_marshal, Unmarshal = toy_unmarshal\<rparr>"

text \<open>Events and a configuration for the examples: \<open>ev n t\<close> is a QoS-1 event of producer
  \<open>n\<close> with timestamp \<open>t\<close>; \<open>cfg0\<close> has batches of 2 and a cache of 2 batches, and
  expires after 100 seconds.\<close>

definition ev :: "nat \<Rightarrow> uint64 \<Rightarrow> event" where
  "ev n t = NewEvent \<lparr>Context = \<lparr>ID = 0, TS = t, QOS = 1, Flags = 0, Topic = ''t''\<rparr>,
                      Content = [of_nat n]\<rparr> 1 (producer_done n)"

definition cfg0 :: Config where
  "cfg0 = \<lparr>Name = ''q'', BatchSize = 2, MaxBatchCacheSize = 2, ExpireTime = 100000000000,
           CleanInterval = 3600000000000, WriteTimeout = 100000000,
           DeleteTimeout = 500000000\<rparr>"

definition q0 :: "kv_bucket Persistence" where
  "q0 = \<lparr>cfg = cfg0, offset = 0, cache = [], bucket = [], disable = False,
         input_chan = [], output_chan = [], edel = [], eget = True, dying = False,
         fired = [], emitted = []\<rparr>"

text \<open>A queue whose bucket already holds a record under offset 1, which the queue's
  offset does not know of: the next \<open>put\<close> fails.\<close>

definition q_taken :: "kv_bucket Persistence" where
  "q_taken = q0\<lparr>bucket := [(1, [9, 9, 1, 9])]\<rparr>"

text \<open>More queues for the examples: \<open>q_two\<close> after the flushes of two batches, both cached;
  \<open>q_six\<close> with six records in the bucket; \<open>q_gone\<close> whose two records have been
  deleted from the bucket; \<open>q_blank\<close> whose only record has no bytes.\<close>

definition q_two :: "kv_bucket Persistence" where
  "q_two = fst (add kv_env (fst (add kv_env q0 [ev 1 10, ev 2 20])) [ev 3 30])"


definition q_gone :: "kv_bucket Persistence" where
  "q_gone = q0\<lparr>offset := 2\<rparr>"

definition q_blank :: "kv_bucket Persistence" where
  "q_blank = q0\<lparr>offset := 1, bucket := [(1, [])]\<rparr>"

text \<open>What the callback of \<open>get\<close> makes of a record that decodes: the decoded message
  with its ID replaced by the offset the bucket reports.\<close>

definition rekey :: "'b env \<Rightarrow> bytes \<times> uint64 \<Rightarrow> mqtt_message" where
  "rekey E r = (projr (Unmarshal E (fst r)))\<lparr>Context := (Context (projr (Unmarshal E (fst r))))\<lparr>ID := snd r\<rparr>\<rparr>"

text \<open>The queue at its start on an empty bucket, and the three actions that push one
  event and flush it on the write timer.\<close>

definition s_init :: "kv_bucket sys" where
  "s_init = \<lparr>Q = q0, writer = Some [], reader = Starting, deleter = Some [], panicked = False\<rparr>"

definition flush1 :: "nat \<Rightarrow> uint64 \<Rightarrow> action list" where
  "flush1 n t = [APush (ev n t) case_chan, AWrite w_input, AWrite w_timer]"

section \<open>Predicates of the proofs\<close>

text \<open>What one operation may do to the cache: the configuration stays, a set \<open>disable\<close>
  stays set, and the cache either loses batches at its front or, on a queue that is not
  disabled and whose cache is below its bound, gains one batch at its end.\<close>

definition cache_step :: "'b Persistence \<Rightarrow> 'b Persistence \<Rightarrow> bool" where
  "cache_step q q' \<longleftrightarrow>
     cfg q' = cfg q \<and> (disable q \<longrightarrow> disable q')
     \<and> ((\<exists>n. cache q' = drop n (cache q))
        \<or> (\<not> disable q \<and> int (length (cache q)) < MaxBatchCacheSize (cfg q)
            \<and> (\<exists>b. cache q' = cache q @ [b])))"









section \<open>Properties\<close>

subsection \<open>Unfolding lists\<close>

lemmas queue_defs = add_def delete_def trigger_def restamp_def NewEvent_def event_id_def event_ts_def
  get_def clean_def expire_threshold_def Push_def Pop_def acknowledge_call_def chan_cap_def
  Disable_def Kill_def NewPersistence_def reading_locked_def send_all_def reading_pump_def
  reading_round_def reading_start_def writing_round_def deleting_round_def step_def start_def

lemmas kv_defs = kv_env_def kv_keys_def kv_put_def kv_range_def kv_get_def kv_min_offset_def kv_max_offset_def
  kv_delete_before_def kv_delete_before_timestamp_def kv_close_def toy_marshal_def
  ev_def cfg0_def q0_def

subsection \<open>The marshalling loop of \<open>add\<close>\<close>

lemma add_loop_length:
  "add_loop E b buf ds msgs = Inr (ds', msgs') \<Longrightarrow>
     length ds' = length ds + length buf \<and> length msgs' = length msgs + length buf"
  by (induction buf arbitrary: b ds msgs) (auto simp: Let_def split: sum.splits)


lemma add_loop_fails_iff:
  "(\<exists>err. add_loop E b buf ds msgs = Inl err) \<longleftrightarrow>
     (\<exists>i<length buf. isl (Marshal E (Message (restamp (b + 1 + of_nat i) (buf ! i)))))"
proof (induction buf arbitrary: b ds msgs)
  case Nil
  then show ?case by simp
next
  case (Cons e es)
  show ?case
  proof (cases "Marshal E (Message (restamp (b + 1) e))")
    case (Inl err)
    then have "add_loop E b (e # es) ds msgs = Inl err" by (simp add: Let_def)
    moreover have "isl (Marshal E (Message (restamp (b + 1 + of_nat 0) ((e # es) ! 0))))"
      using Inl by simp
    ultimately show ?thesis by blast
  next
    case (Inr d)
    have "(\<exists>err. add_loop E b (e # es) ds msgs = Inl err)
        \<longleftrightarrow> (\<exists>err. add_loop E (b + 1) es (ds @ [d]) (msgs @ [restamp (b + 1) e]) = Inl err)"
      using Inr by (simp add: Let_def)
    also have "\<dots> \<longleftrightarrow> (\<exists>i<length es. isl (Marshal E (Message (restamp (b + 1 + 1 + of_nat i) (es ! i)))))"
      by (rule Cons.IH)
    also have "\<dots> \<longleftrightarrow> (\<exists>i<length (e # es). isl (Marshal E (Message (restamp (b + 1 + of_nat i) ((e # es) ! i)))))"
    proof
      assume "\<exists>i<length es. isl (Marshal E (Message (restamp (b + 1 + 1 + of_nat i) (es ! i))))"
      then obtain i where "i < length es" "isl (Marshal E (Message (restamp (b + 1 + 1 + of_nat i) (es ! i))))" by blast
      then have "Suc i < length (e # es)" "isl (Marshal E (Message (restamp (b + 1 + of_nat (Suc i)) ((e # es) ! Suc i))))"
        by (simp_all add: ac_simps)
      then show "\<exists>i<length (e # es). isl (Marshal E (Message (restamp (b + 1 + of_nat i) ((e # es) ! i))))" by blast
    next
      assume "\<exists>i<length (e # es). isl (Marshal E (Message (restamp (b + 1 + of_nat i) ((e # es) ! i))))"
      then obtain i where i: "i < length (e # es)" "isl (Marshal E (Message (restamp (b + 1 + of_nat i) ((e # es) ! i))))" by blast
      show "\<exists>i<length es. isl (Marshal E (Message (restamp (b + 1 + 1 + of_nat i) (es ! i))))"
      proof (cases i)
        case 0
        with i Inr show ?thesis by simp
      next
        case (Suc j)
        with i have "j < length es" "isl (Marshal E (Message (restamp (b + 1 + 1 + of_nat j) (es ! j))))"
          by (simp_all add: ac_simps)
        then show ?thesis by blast
      qed
    qed
    finally show ?thesis .
  qed
qed


subsection \<open>Flushing the ingress buffer\<close>

text \<open>C10. Flushing an empty buffer does nothing, for the ingress batcher and for the
  acknowledgement collector alike: \<open>add\<close> and \<open>delete\<close> return the queue as it is
  (bucket, offset and cache included) whatever the bucket would do if it were called, and
  so do the rounds of the two workers in which the timer fires on an empty buffer.\<close>

theorem empty_flush_is_noop:
  "add E q [] = (q, []) \<and> delete E q [] = (q, [])
   \<and> writing_round E w_timer q [] = Some (q, Some [])
   \<and> deleting_round E d_timer q [] = Some (Inr (q, Some []))"
  by (simp add: add_def delete_def writing_round_def deleting_round_def)

theorem empty_flush_is_noop_witness:
  "add kv_env q0 [] = (q0, []) \<and> delete kv_env q0 [] = (q0, [])
   \<and> writing_round kv_env w_timer q0 [] = Some (q0, Some [])
   \<and> deleting_round kv_env d_timer q0 [] = Some (Inr (q0, Some []))"
  using empty_flush_is_noop [of kv_env q0] by simp

text \<open>C6. A flush of a non-empty buffer in which marshalling one of the rebuilt events
  fails, or in which the bucket's \<open>Put\<close> returns an error, discards the buffer (the
  worker goes on with an empty one), fires no \<open>done\<close>, leaves the queue's offset and
  cache as they are, posts no pump and leaves the writer running.\<close>

theorem failed_flush_discards:
  assumes "buf \<noteq> []"
    and "(\<exists>i<length buf. isl (Marshal E (Message (restamp (offset q + 1 + of_nat i) (buf ! i)))))
         \<or> (\<exists>ds msgs. add_loop E (offset q) buf [] [] = Inr (ds, msgs)
               \<and> fst (Put E (bucket q) (offset q + 1) ds) \<noteq> None)"
  shows "snd (add E q buf) = []
       \<and> fired (fst (add E q buf)) = fired q
       \<and> offset (fst (add E q buf)) = offset q
       \<and> cache (fst (add E q buf)) = cache q
       \<and> eget (fst (add E q buf)) = eget q
       \<and> dying (fst (add E q buf)) = dying q
       \<and> writing_round E w_timer q buf = Some (fst (add E q buf), Some [])"
proof -
  from assms(2) consider
      (marshal) err where "add_loop E (offset q) buf [] [] = Inl err"
    | (put) ds msgs e b' where "add_loop E (offset q) buf [] [] = Inr (ds, msgs)"
        "Put E (bucket q) (offset q + 1) ds = (Some e, b')"
    using add_loop_fails_iff [of E "offset q" buf "[]" "[]"]
    by (metis prod.collapse option.exhaust)
  then show ?thesis
  proof cases
    case marshal
    with assms(1) have "add E q buf = (q, [])" by (simp add: add_def)
    then show ?thesis by (simp add: writing_round_def)
  next
    case put
    with assms(1) have "add E q buf = (q\<lparr>bucket := b'\<rparr>, [])" by (simp add: add_def)
    then show ?thesis by (simp add: writing_round_def)
  qed
qed

theorem failed_flush_discards_witness:
  "fst (Put kv_env (bucket q_taken) (offset q_taken + 1) [[1, 10, 1, 1]]) \<noteq> None
   \<and> snd (add kv_env q_taken [ev 1 10]) = []
   \<and> fired (fst (add kv_env q_taken [ev 1 10])) = []
   \<and> offset (fst (add kv_env q_taken [ev 1 10])) = 0
   \<and> cache (fst (add kv_env q_taken [ev 1 10])) = []
   \<and> writing_round kv_env w_timer q_taken [ev 1 10]
       = Some (fst (add kv_env q_taken [ev 1 10]), Some [])"
  using failed_flush_discards [of "[ev 1 10]" kv_env q_taken]
  by (simp add: q_taken_def kv_defs restamp_def NewEvent_def)

text \<open>C2, as the code has it. When the rebuilt events marshal and \<open>Put\<close> succeeds, the
  store write stands and the \<open>done\<close> of every event of the buffer is fired. If the queue
  is not disabled, the offset advances by the number of events, the batch is appended to
  the cache when the cache has room, and a pump is posted. If the queue is disabled, the
  flush returns before all three: the offset is not advanced.\<close>

theorem successful_flush:
  assumes "buf \<noteq> []"
    and "add_loop E (offset q) buf [] [] = Inr (ds, msgs)"
    and "Put E (bucket q) (offset q + 1) ds = (None, b')"
  shows "snd (add E q buf) = []
       \<and> fired (fst (add E q buf)) = fired q @ buf
       \<and> bucket (fst (add E q buf)) = b'
       \<and> (\<not> disable q \<longrightarrow>
            offset (fst (add E q buf)) = offset q + of_nat (length buf)
          \<and> cache (fst (add E q buf))
              = (if int (length (cache q)) < MaxBatchCacheSize (cfg q)
                 then cache q @ [\<lparr>batchMsgs.offset = offset q + 1, batchMsgs.data = msgs\<rparr>]
                 else cache q)
          \<and> eget (fst (add E q buf)))
       \<and> (disable q \<longrightarrow>
            offset (fst (add E q buf)) = offset q
          \<and> cache (fst (add E q buf)) = cache q
          \<and> eget (fst (add E q buf)) = eget q)"
  using assms by (simp add: add_def trigger_def Let_def)

theorem successful_flush_witness:
  "snd (add kv_env q0 [ev 1 10, ev 2 20]) = []
   \<and> fired (fst (add kv_env q0 [ev 1 10, ev 2 20])) = [ev 1 10, ev 2 20]
   \<and> bucket (fst (add kv_env q0 [ev 1 10, ev 2 20])) = [(1, [1, 10, 1, 1]), (2, [2, 20, 1, 2])]
   \<and> offset (fst (add kv_env q0 [ev 1 10, ev 2 20])) = 2
   \<and> cache (fst (add kv_env q0 [ev 1 10, ev 2 20]))
       = [\<lparr>batchMsgs.offset = 1, batchMsgs.data = [restamp 1 (ev 1 10), restamp 2 (ev 2 20)]\<rparr>]
   \<and> offset (fst (add kv_env (Disable q0) [ev 1 10, ev 2 20])) = 0
   \<and> cache (fst (add kv_env (Disable q0) [ev 1 10, ev 2 20])) = []"
  using successful_flush [of "[ev 1 10, ev 2 20]" kv_env q0 "[[1, 10, 1, 1], [2, 20, 1, 2]]"
          "[restamp 1 (ev 1 10), restamp 2 (ev 2 20)]" "[(1, [1, 10, 1, 1]), (2, [2, 20, 1, 2])]"]
        successful_flush [of "[ev 1 10, ev 2 20]" kv_env "Disable q0" "[[1, 10, 1, 1], [2, 20, 1, 2]]"
          "[restamp 1 (ev 1 10), restamp 2 (ev 2 20)]" "[(1, [1, 10, 1, 1]), (2, [2, 20, 1, 2])]"]
  by (simp add: kv_defs restamp_def NewEvent_def Disable_def)

text \<open>The claim C2 as stated fails on a disabled queue: the two records are written and
  both \<open>done\<close> are fired, and the offset is still 0.\<close>

theorem disabled_flush_counterexample:
  "disable (Disable q0)
   \<and> bucket (fst (add kv_env (Disable q0) [ev 1 10, ev 2 20]))
       = [(1, [1, 10, 1, 1]), (2, [2, 20, 1, 2])]
   \<and> fired (fst (add kv_env (Disable q0) [ev 1 10, ev 2 20])) = [ev 1 10, ev 2 20]
   \<and> offset (Disable q0) = 0
   \<and> offset (fst (add kv_env (Disable q0) [ev 1 10, ev 2 20])) = 0"
  by (simp add: kv_defs queue_defs)

subsection \<open>The pump\<close>

lemma get_failed_or_empty:
  "(\<exists>err. Get E b begin end = Inl err) \<or> Get E b begin end = Inr [] \<Longrightarrow>
     (\<exists>err. get E b begin end = Inl err) \<or> get E b begin end = Inr []"
  by (auto simp: get_def)

text \<open>C9. A pump that reads the bucket (no cache hit, a non-empty range) and whose read
  fails (the bucket's \<open>Get\<close> fails, or a record is empty or does not decode) or yields no
  record emits nothing, leaves the cursor \<open>begin\<close> where it was and posts no pump of its
  own: the reader waits for the next one.\<close>

theorem idle_pump_keeps_cursor:
  assumes "eget q"
    and "reading_locked (q\<lparr>eget := False\<rparr>) begin = (q1, end, buf0)"
    and "length buf0 = 0" and "begin \<noteq> end"
    and "(\<exists>err. Get E (bucket q1) begin end = Inl err) \<or> Get E (bucket q1) begin end = Inr []
         \<or> (\<exists>err. get E (bucket q1) begin end = Inl err)"
  shows "reading_round E case_chan stop q begin = Some (q1, Reading begin)
       \<and> emitted q1 = emitted q \<and> output_chan q1 = output_chan q \<and> \<not> eget q1"
proof -
  from assms(5) have g: "(\<exists>err. get E (bucket q1) begin end = Inl err) \<or> get E (bucket q1) begin end = Inr []"
    using get_failed_or_empty [of E "bucket q1" "begin" "end"] by blast
  have frame: "emitted q1 = emitted q \<and> output_chan q1 = output_chan q \<and> \<not> eget q1"
    using assms(2) by (auto simp: reading_locked_def Let_def split: if_splits)
  from g assms(1-4) have "reading_round E case_chan stop q begin = Some (q1, Reading begin)"
    by (auto simp: reading_round_def reading_pump_def)
  with frame show ?thesis by simp
qed

theorem idle_pump_keeps_cursor_witness:
  "Get kv_env (bucket q_gone) 1 3 = Inr []
   \<and> reading_round kv_env case_chan None q_gone 1 = Some (q_gone\<lparr>eget := False\<rparr>, Reading 1)
   \<and> get kv_env (bucket q_blank) 1 2 = Inl ErrDataNotFound
   \<and> reading_round kv_env case_chan None q_blank 1 = Some (q_blank\<lparr>eget := False\<rparr>, Reading 1)"
  using idle_pump_keeps_cursor [of q_gone 1 "q_gone\<lparr>eget := False\<rparr>" 3 "[]" kv_env None]
        idle_pump_keeps_cursor [of q_blank 1 "q_blank\<lparr>eget := False\<rparr>" 2 "[]" kv_env None]
  by (simp add: q_gone_def q_blank_def kv_defs reading_locked_def get_def)

subsection \<open>Decoding\<close>

lemma get_callback_ok:
  assumes "\<forall>r\<in>set kvs. fst r \<noteq> [] \<and> \<not> isl (Unmarshal E (fst r))"
  shows "get_callback E kvs msgs = Inr (msgs @ map (rekey E) kvs)"
  using assms
proof (induction kvs arbitrary: msgs)
  case Nil
  then show ?case by simp
next
  case (Cons r kvs)
  obtain d k where r: "r = (d, k)" by (cases r)
  from Cons.prems r have d: "d \<noteq> []" and u: "\<not> isl (Unmarshal E d)" by auto
  from u obtain v where v: "Unmarshal E d = Inr v" by (cases "Unmarshal E d") auto
  have "get_callback E (r # kvs) msgs
      = get_callback E kvs (msgs @ [v\<lparr>Context := (Context v)\<lparr>ID := k\<rparr>\<rparr>])"
    using r d v by simp
  also have "\<dots> = Inr ((msgs @ [v\<lparr>Context := (Context v)\<lparr>ID := k\<rparr>\<rparr>]) @ map (rekey E) kvs)"
    using Cons.prems by (intro Cons.IH) simp
  finally show ?case using r v by (simp add: rekey_def)
qed



text \<open>C5, as the code has it. \<open>get\<close> never compares the offset encoded in a record with
  the key it is stored under: when the bucket's \<open>Get\<close> succeeds and every record it
  visits is non-empty and decodes, \<open>get\<close> succeeds and delivers each record under the
  bucket's key, the decoded ID overwritten. The only errors are the bucket's own, an empty
  value and a decoding failure.\<close>

theorem get_delivers_under_key:
  assumes "Get E b begin end = Inr kvs"
    and "\<forall>r\<in>set kvs. fst r \<noteq> [] \<and> \<not> isl (Unmarshal E (fst r))"
  shows "get E b begin end = Inr (map (\<lambda>r. NewEvent (rekey E r) 1 acknowledge) kvs)
       \<and> map event_id (map (\<lambda>r. NewEvent (rekey E r) 1 acknowledge) kvs) = map snd kvs"
proof -
  have "get E b begin end = Inr (map (\<lambda>r. NewEvent (rekey E r) 1 acknowledge) kvs)"
    using assms(1) get_callback_ok [OF assms(2), of "[]"] by (simp add: get_def)
  moreover have "map event_id (map (\<lambda>r. NewEvent (rekey E r) 1 acknowledge) kvs) = map snd kvs"
    by (simp add: event_id_def NewEvent_def rekey_def comp_def)
  ultimately show ?thesis by simp
qed

theorem get_delivers_under_key_witness:
  "Get kv_env [(7, [9, 10, 1, 42])] 7 8 = Inr [([9, 10, 1, 42], 7)]
   \<and> get kv_env [(7, [9, 10, 1, 42])] 7 8 = Inr [NewEvent (rekey kv_env ([9, 10, 1, 42], 7)) 1 acknowledge]
   \<and> map event_id [NewEvent (rekey kv_env ([9, 10, 1, 42], 7)) 1 acknowledge] = [7]"
  using get_delivers_under_key [of kv_env "[(7, [9, 10, 1, 42])]" 7 8 "[([9, 10, 1, 42], 7)]"]
  by (simp add: kv_defs)

text \<open>The claim C5 as stated fails: the record stored under key 7 encodes the offset 9;
  \<open>get\<close> accepts it and the pump emits it as offset 7.\<close>

theorem offset_mismatch_counterexample:
  "Unmarshal kv_env [9, 10, 1, 42]
     = Inr \<lparr>Context = \<lparr>ID = 9, TS = 10, QOS = 1, Flags = 0, Topic = []\<rparr>, Content = [42]\<rparr>
   \<and> get kv_env [(7, [9, 10, 1, 42])] 7 8
     = Inr [NewEvent \<lparr>Context = \<lparr>ID = 7, TS = 10, QOS = 1, Flags = 0, Topic = []\<rparr>,
                      Content = [42]\<rparr> 1 acknowledge]
   \<and> map event_id (emitted (fst (reading_pump kv_env None
        (q0\<lparr>offset := 7, bucket := [(7, [9, 10, 1, 42])]\<rparr>) 7))) = [7]"
  by (simp add: kv_defs queue_defs)

subsection \<open>Acknowledgements and expiry\<close>





text \<open>C3 fails on the code when every cached batch has expired. The sweep at 200 s with
  an expiry of 100 s has the threshold 100; the two cached batches end with the
  timestamps 20 and 30, both older. The loop finds no batch to keep, \<open>index\<close> stays 0
  and the cache is left whole: its first batch's last timestamp is below the threshold.
  (The sweep at 125 s, with the threshold 25, finds the second batch and drops the first,
  as the claim says.)\<close>

theorem clean_keeps_expired_cache:
  "expire_threshold cfg0 200000000000 = 100
   \<and> map (\<lambda>b. event_ts (last (batchMsgs.data b))) (cache q_two) = [20, 30]
   \<and> clean kv_env (\<lambda>i. 200000000000) q_two = Inr q_two
   \<and> expire_threshold cfg0 125000000000 = 25
   \<and> clean kv_env (\<lambda>i. 125000000000) q_two = Inr (q_two\<lparr>cache := drop 1 (cache q_two)\<rparr>)"
  by (simp add: q_two_def kv_defs queue_defs word_le_nat_alt)

subsection \<open>Push and Pop\<close>




subsection \<open>The cache\<close>

lemma cache_step_same:
  "cfg q' = cfg q \<Longrightarrow> cache q' = cache q \<Longrightarrow> (disable q \<longrightarrow> disable q') \<Longrightarrow> cache_step q q'"
  unfolding cache_step_def by (metis drop_0)

lemma cache_step_drop:
  "cfg q' = cfg q \<Longrightarrow> cache q' = drop n (cache q) \<Longrightarrow> (disable q \<longrightarrow> disable q') \<Longrightarrow> cache_step q q'"
  unfolding cache_step_def by blast

lemma cache_step_refl: "cache_step q q"
  by (simp add: cache_step_same)

lemma cache_step_add: "cache_step q (fst (add E q buf))"
proof (cases "buf = []")
  case True
  then show ?thesis by (simp add: add_def cache_step_refl)
next
  case False
  show ?thesis
  proof (cases "add_loop E (offset q) buf [] []")
    case (Inl err)
    with False show ?thesis by (simp add: add_def cache_step_refl)
  next
    case (Inr r)
    obtain ds msgs where r: "r = (ds, msgs)" by (cases r)
    obtain err b' where p: "Put E (bucket q) (offset q + 1) ds = (err, b')"
      by (cases "Put E (bucket q) (offset q + 1) ds")
    show ?thesis
    proof (cases err)
      case (Some e)
      with False Inr r p show ?thesis by (simp add: add_def cache_step_same)
    next
      case None
      show ?thesis
      proof (cases "disable q")
        case True
        with False Inr r p None show ?thesis by (simp add: add_def cache_step_same)
      next
        case nd: False
        show ?thesis
        proof (cases "int (length (cache q)) < MaxBatchCacheSize (cfg q)")
          case True
          with False Inr r p None nd show ?thesis
            by (simp add: add_def trigger_def Let_def cache_step_def)
        next
          case nofit: False
          with False Inr r p None nd show ?thesis
            by (simp add: add_def trigger_def Let_def cache_step_same)
        qed
      qed
    qed
  qed
qed

lemma cache_step_delete: "cache_step q (fst (delete E q buf))"
  by (simp add: delete_def cache_step_same split: prod.splits)

lemma cache_step_clean: "clean E clock q = Inr q' \<Longrightarrow> cache_step q q'"
  by (auto simp: clean_def Let_def split: sum.splits prod.splits intro!: cache_step_drop)

lemma cache_step_Push: "Push q e c = Some (q', r) \<Longrightarrow> cache_step q q'"
  by (auto simp: Push_def split: select_case.splits if_splits intro!: cache_step_same)

lemma cache_step_Pop: "Pop q c = Some (q', r) \<Longrightarrow> cache_step q q'"
  by (auto simp: Pop_def split: select_case.splits if_splits list.splits intro!: cache_step_same)

lemma cache_step_ack: "acknowledge_call q i c = Some q' \<Longrightarrow> cache_step q q'"
  by (auto simp: acknowledge_call_def split: select_case.splits if_splits intro!: cache_step_same)

lemma cache_step_Disable: "cache_step q (Disable q)"
  by (simp add: Disable_def cache_step_same)

lemma cache_step_Kill: "cache_step q (Kill q)"
  by (simp add: Kill_def cache_step_same)

lemma reading_locked_cases:
  assumes "reading_locked q begin = (q1, end, buf)"
  shows "(q1 = q \<and> buf = [])
       \<or> (cache q \<noteq> [] \<and> batchMsgs.offset (hd (cache q)) = begin
          \<and> buf = batchMsgs.data (hd (cache q)) \<and> q1 = q\<lparr>cache := tl (cache q)\<rparr>)"
proof (cases "cache q \<noteq> [] \<and> begin = batchMsgs.offset (cache q ! 0)")
  case True
  then have "hd (cache q) = cache q ! 0" "drop 1 (cache q) = tl (cache q)"
    by (simp_all add: hd_conv_nth drop_Suc)
  with True assms show ?thesis
    by (auto simp: reading_locked_def Let_def)
next
  case False
  with assms have "q1 = q \<and> buf = []"
    by (auto simp: reading_locked_def Let_def split: if_splits)
  then show ?thesis by simp
qed

lemma cache_step_locked:
  assumes "reading_locked q begin = (q1, end, buf)"
  shows "cache_step q q1"
  using reading_locked_cases [OF assms]
proof
  assume "q1 = q \<and> buf = []"
  then show ?thesis by (simp add: cache_step_refl)
next
  assume "cache q \<noteq> [] \<and> batchMsgs.offset (hd (cache q)) = begin
          \<and> buf = batchMsgs.data (hd (cache q)) \<and> q1 = q\<lparr>cache := tl (cache q)\<rparr>"
  then have "cfg q1 = cfg q" "cache q1 = drop 1 (cache q)" "disable q1 = disable q"
    by (simp_all add: drop_Suc)
  then show ?thesis by (intro cache_step_drop [where n = 1]) simp_all
qed

lemma cache_step_send: "cache_step q q' \<Longrightarrow> cache_step q (send_all q' es)"
  by (simp add: cache_step_def send_all_def)

lemma cache_step_trigger: "cache_step q q' \<Longrightarrow> cache_step q (trigger q')"
  by (simp add: cache_step_def trigger_def)

lemma cache_step_eget: "cache_step (q\<lparr>eget := v\<rparr>) q' \<Longrightarrow> cache_step q q'"
  by (simp add: cache_step_def)

lemma cache_step_pump: "reading_pump E stop q begin = (q', r) \<Longrightarrow> cache_step q q'"
proof -
  assume a: "reading_pump E stop q begin = (q', r)"
  obtain q1 e buf0 where l: "reading_locked q begin = (q1, e, buf0)"
    by (cases "reading_locked q begin") auto
  have s1: "cache_step q q1" using l by (rule cache_step_locked)
  from a l have "q' = q1 \<or> (\<exists>es. q' = send_all q1 es) \<or> (\<exists>es. q' = trigger (send_all q1 es))"
    by (auto simp: reading_pump_def Let_def split: sum.splits if_splits option.splits)
  with s1 show ?thesis
    by (auto intro: cache_step_send cache_step_trigger)
qed

lemma cache_step_round:
  "reading_round E c stop q begin = Some (q', r) \<Longrightarrow> cache_step q q'"
  by (auto simp: reading_round_def cache_step_refl split: select_case.splits if_splits
      intro: cache_step_eget cache_step_pump)

lemma cache_step_start: "reading_start E q = (q', r) \<Longrightarrow> cache_step q q'"
  by (auto simp: reading_start_def cache_step_refl cache_step_Kill split: sum.splits)

lemma cache_step_input: "cache_step (q\<lparr>input_chan := v\<rparr>) q' \<Longrightarrow> cache_step q q'"
  by (simp add: cache_step_def)

lemma cache_step_edel: "cache_step (q\<lparr>edel := v\<rparr>) q' \<Longrightarrow> cache_step q q'"
  by (simp add: cache_step_def)

lemma cache_step_writing:
  "writing_round E c q buf = Some (q', w) \<Longrightarrow> cache_step q q'"
proof (cases c)
  case w_input
  assume a: "writing_round E c q buf = Some (q', w)"
  with w_input obtain e es where i: "input_chan q = e # es"
    by (cases "input_chan q") (auto simp: writing_round_def)
  with a w_input have "q' = q\<lparr>input_chan := es\<rparr> \<or> q' = fst (add E (q\<lparr>input_chan := es\<rparr>) (buf @ [e]))"
    by (auto simp: writing_round_def Let_def split: if_splits prod.splits)
  then show ?thesis
    using cache_step_add [of "q\<lparr>input_chan := es\<rparr>" E "buf @ [e]"]
    by (auto intro: cache_step_input simp: cache_step_same)
next
  case w_timer
  assume "writing_round E c q buf = Some (q', w)"
  with w_timer have "q' = fst (add E q buf)"
    by (auto simp: writing_round_def split: prod.splits)
  then show ?thesis by (simp add: cache_step_add)
next
  case w_dying
  assume "writing_round E c q buf = Some (q', w)"
  with w_dying have "q' = fst (add E q buf)"
    by (auto simp: writing_round_def split: prod.splits if_splits)
  then show ?thesis by (simp add: cache_step_add)
qed

lemma cache_step_deleting:
  "deleting_round E c q buf = Some (Inr (q', d)) \<Longrightarrow> cache_step q q'"
proof (cases c)
  case d_edel
  assume a: "deleting_round E c q buf = Some (Inr (q', d))"
  with d_edel obtain e es where i: "edel q = e # es"
    by (cases "edel q") (auto simp: deleting_round_def)
  with a d_edel have "q' = q\<lparr>edel := es\<rparr> \<or> q' = fst (delete E (q\<lparr>edel := es\<rparr>) (buf @ [e]))"
    by (auto simp: deleting_round_def Let_def split: if_splits prod.splits)
  then show ?thesis
    using cache_step_delete [of "q\<lparr>edel := es\<rparr>" E "buf @ [e]"]
    by (auto intro: cache_step_edel simp: cache_step_same)
next
  case d_timer
  assume "deleting_round E c q buf = Some (Inr (q', d))"
  with d_timer have "q' = fst (delete E q buf)"
    by (auto simp: deleting_round_def split: prod.splits)
  then show ?thesis by (simp add: cache_step_delete)
next
  case (d_clean clock)
  assume "deleting_round E c q buf = Some (Inr (q', d))"
  with d_clean have "clean E clock q = Inr q'"
    by (auto simp: deleting_round_def split: sum.splits)
  then show ?thesis by (rule cache_step_clean)
next
  case d_dying
  assume "deleting_round E c q buf = Some (Inr (q', d))"
  with d_dying have "q' = fst (delete E q buf)"
    by (auto simp: deleting_round_def split: prod.splits if_splits)
  then show ?thesis by (simp add: cache_step_delete)
qed

lemma cache_step_step: "cache_step (Q s) (Q (step E a s))"
proof (cases "panicked s")
  case True
  then show ?thesis by (simp add: step_def cache_step_refl)
next
  case False
  show ?thesis
  proof (cases a)
    case (APush e c)
    with False show ?thesis
      by (auto simp: step_def cache_step_refl split: option.splits dest: cache_step_Push)
  next
    case (APop c)
    with False show ?thesis
      by (auto simp: step_def cache_step_refl split: option.splits dest: cache_step_Pop)
  next
    case (AAck i c)
    with False show ?thesis
      by (auto simp: step_def cache_step_refl split: option.splits dest: cache_step_ack)
  next
    case ADisable
    with False show ?thesis by (simp add: step_def cache_step_Disable)
  next
    case AKill
    with False show ?thesis by (simp add: step_def cache_step_Kill)
  next
    case (AWrite c)
    with False show ?thesis
      by (auto simp: step_def cache_step_refl split: option.splits dest: cache_step_writing)
  next
    case AReadStart
    with False show ?thesis
      by (auto simp: step_def cache_step_refl split: reader.splits prod.splits dest: cache_step_start)
  next
    case (ARead c stop)
    with False show ?thesis
      by (auto simp: step_def cache_step_refl split: reader.splits option.splits dest: cache_step_round)
  next
    case (ADelete c)
    with False show ?thesis
      by (auto simp: step_def cache_step_refl split: option.splits sum.splits dest: cache_step_deleting)
  qed
qed


lemma exec_append: "exec E (as @ bs) s = exec E bs (exec E as s)"
  by (induction as arbitrary: s) simp_all

lemma exec_cfg: "cfg (Q (exec E as s)) = cfg (Q s)"
proof (induction as arbitrary: s)
  case Nil
  then show ?case by simp
next
  case (Cons a as)
  have "cfg (Q (step E a s)) = cfg (Q s)"
    using cache_step_step [of s E a] by (simp add: cache_step_def)
  with Cons.IH [of "step E a s"] show ?case by simp
qed

lemma step_bound:
  assumes "int (length (cache (Q s))) \<le> MaxBatchCacheSize (cfg (Q s))"
  shows "int (length (cache (Q (step E a s)))) \<le> MaxBatchCacheSize (cfg (Q (step E a s)))"
proof -
  have cs: "cache_step (Q s) (Q (step E a s))" by (rule cache_step_step)
  then have c: "cfg (Q (step E a s)) = cfg (Q s)" by (simp add: cache_step_def)
  from cs consider
      (drop) n where "cache (Q (step E a s)) = drop n (cache (Q s))"
    | (app) b where "int (length (cache (Q s))) < MaxBatchCacheSize (cfg (Q s))"
        "cache (Q (step E a s)) = cache (Q s) @ [b]"
    unfolding cache_step_def by blast
  then show ?thesis
  proof cases
    case drop
    then have "length (cache (Q (step E a s))) \<le> length (cache (Q s))" by simp
    with assms c show ?thesis by simp
  next
    case app
    with c show ?thesis by simp
  qed
qed

lemma exec_bound:
  "int (length (cache (Q s))) \<le> MaxBatchCacheSize (cfg (Q s)) \<Longrightarrow>
     int (length (cache (Q (exec E as s)))) \<le> MaxBatchCacheSize (cfg (Q (exec E as s)))"
  by (induction as arbitrary: s) (simp_all add: step_bound)

lemma step_disabled:
  assumes "disable (Q s)"
  shows "disable (Q (step E a s)) \<and> (\<exists>n. cache (Q (step E a s)) = drop n (cache (Q s)))"
  using cache_step_step [of s E a] assms by (auto simp: cache_step_def)

lemma exec_disabled:
  "disable (Q s) \<Longrightarrow>
     disable (Q (exec E as s)) \<and> (\<exists>n. cache (Q (exec E as s)) = drop n (cache (Q s)))"
proof (induction as arbitrary: s)
  case Nil
  then show ?case by (metis exec.simps(1) drop_0)
next
  case (Cons a as)
  from step_disabled [OF Cons.prems, of E a] obtain n where
    d: "disable (Q (step E a s))" and n: "cache (Q (step E a s)) = drop n (cache (Q s))" by blast
  from Cons.IH [OF d] obtain m where
    d': "disable (Q (exec E as (step E a s)))"
    and m: "cache (Q (exec E as (step E a s))) = drop m (cache (Q (step E a s)))" by blast
  from n m have "cache (Q (exec E (a # as) s)) = drop (m + n) (cache (Q s))"
    by (simp add: drop_drop)
  with d' show ?case by auto
qed

lemma start_state:
  assumes "start E c b = Inr s0"
  shows "cfg (Q s0) = c \<and> cache (Q s0) = [] \<and> emitted (Q s0) = [] \<and> input_chan (Q s0) = []
       \<and> writer s0 = Some [] \<and> reader s0 = Starting \<and> \<not> disable (Q s0)"
  using assms
  by (auto simp: start_def NewPersistence_def trigger_def split: sum.splits if_splits)

text \<open>C8. On a queue created with a bound \<open>MaxBatchCacheSize\<close> that is not negative,
  after any sequence of actions of the producers, the consumer, the owner and the three
  workers, the cache holds at most \<open>MaxBatchCacheSize\<close> batches; in such a state a
  flush that finds the cache full and whose \<open>Put\<close> succeeds leaves the cache as it is
  while the bucket is the one \<open>Put\<close> returned; and once \<open>disable\<close> is set it stays set
  and the cache only ever loses batches at its front.\<close>

theorem cache_bounded:
  assumes "start E c b = Inr s0" and "0 \<le> MaxBatchCacheSize c"
  shows "int (length (cache (Q (exec E as s0)))) \<le> MaxBatchCacheSize c
       \<and> (\<forall>buf ds msgs b'.
            buf \<noteq> [] \<and> add_loop E (offset (Q (exec E as s0))) buf [] [] = Inr (ds, msgs)
            \<and> Put E (bucket (Q (exec E as s0))) (offset (Q (exec E as s0)) + 1) ds = (None, b')
            \<and> int (length (cache (Q (exec E as s0)))) = MaxBatchCacheSize c
          \<longrightarrow> cache (fst (add E (Q (exec E as s0)) buf)) = cache (Q (exec E as s0))
              \<and> bucket (fst (add E (Q (exec E as s0)) buf)) = b')
       \<and> (disable (Q (exec E as s0)) \<longrightarrow>
            (\<forall>bs. disable (Q (exec E bs (exec E as s0)))
                \<and> (\<exists>n. cache (Q (exec E bs (exec E as s0))) = drop n (cache (Q (exec E as s0))))))"
proof -
  let ?s = "exec E as s0"
  from start_state [OF assms(1)] have c0: "cfg (Q s0) = c" and e0: "cache (Q s0) = []" by simp_all
  have c: "cfg (Q ?s) = c" using c0 by (simp add: exec_cfg)
  have "int (length (cache (Q s0))) \<le> MaxBatchCacheSize (cfg (Q s0))"
    using c0 e0 assms(2) by simp
  from exec_bound [OF this, of E as] c
  have bound: "int (length (cache (Q ?s))) \<le> MaxBatchCacheSize c" by simp
  have full: "cache (fst (add E (Q ?s) buf)) = cache (Q ?s) \<and> bucket (fst (add E (Q ?s) buf)) = b'"
    if "buf \<noteq> []" "add_loop E (offset (Q ?s)) buf [] [] = Inr (ds, msgs)"
      "Put E (bucket (Q ?s)) (offset (Q ?s) + 1) ds = (None, b')"
      "int (length (cache (Q ?s))) = MaxBatchCacheSize c"
    for buf ds msgs b'
    using that c by (simp add: add_def trigger_def Let_def)
  have frozen: "disable (Q (exec E bs ?s)) \<and> (\<exists>n. cache (Q (exec E bs ?s)) = drop n (cache (Q ?s)))"
    if "disable (Q ?s)" for bs
    using that by (rule exec_disabled)
  from bound full frozen show ?thesis by blast
qed

theorem cache_bounded_witness:
  "start kv_env cfg0 [] = Inr s_init
   \<and> int (length (cache (Q (exec kv_env (flush1 1 10 @ flush1 2 20) s_init)))) = MaxBatchCacheSize cfg0
   \<and> cache (fst (add kv_env (Q (exec kv_env (flush1 1 10 @ flush1 2 20) s_init)) [ev 3 30]))
       = cache (Q (exec kv_env (flush1 1 10 @ flush1 2 20) s_init))
   \<and> bucket (fst (add kv_env (Q (exec kv_env (flush1 1 10 @ flush1 2 20) s_init)) [ev 3 30]))
       = [(1, [1, 10, 1, 1]), (2, [2, 20, 1, 2]), (3, [3, 30, 1, 3])]
   \<and> disable (Q (exec kv_env [ADisable] s_init))
   \<and> cache (Q (exec kv_env (flush1 1 10) (exec kv_env [ADisable] s_init))) = []"
  using cache_bounded [of kv_env cfg0 "[]" s_init "flush1 1 10 @ flush1 2 20"]
        cache_bounded [of kv_env cfg0 "[]" s_init "[ADisable]"]
  by (simp add: flush1_def s_init_def kv_defs queue_defs)

subsection \<open>Offsets without wrap-around\<close>





subsection \<open>Slices fit for delivery\<close>




subsection \<open>Quiet operations\<close>











subsection \<open>Well-formed batches\<close>





subsection \<open>One pump keeps the order\<close>




subsection \<open>The invariant\<close>













end
